theory Spec2Isabelle
  imports Complex_Main "HOL-Library.AList"
begin

section \<open>Data model of the crawler\<close>

text \<open>
  Exceptions of the program are values.  \<open>NameError\<close> stands for Python's
  \<open>UnboundLocalError\<close> (a subclass of \<open>NameError\<close>) as well; \<open>OtherException\<close> is any
  exception of the platform client that the program has no handler for.
\<close>

datatype exc =
    UnknownObjectException
  | RateLimitExceededException
  | NameError
  | ValueError
  | AttributeError
  | OtherException string

text \<open>
  A \<open>github.NamedUser.NamedUser\<close>.  The login is known from the listing the user came
  from.  The profile attributes are fetched by the client on the first access of one of
  them; that request either yields all of them or raises.
\<close>

record user_attributes =
  name :: "string option"
  twitter_username :: "string option"
  email :: "string option"
  location :: "string option"
  company :: "string option"
  bio :: "string option"
  blog :: "string option"

record named_user =
  login :: string
  attributes :: "exc + user_attributes"

text \<open>
  An entry of \<open>self.developers\<close>: the profile attributes (the source stores the
  twitter handle under the key \<open>twitter_unsername\<close>), the profile URL and the three
  relation sets.
\<close>

record developer = user_attributes +
  github_url :: string
  contributed_to :: "string set"
  stared :: "string set"
  forked :: "string set"

text \<open>
  \<open>DeveloperBase\<close>.  \<open>developers\<close> is a Python dict: an association list in
  insertion order, updated in place or extended at the end.
\<close>

record developer_base =
  developers :: "(string \<times> developer) list"
  corrupted_user_names :: "string list"
  crawled_projects_for_contributors :: "string set"
  crawled_projects_for_stargazers :: "string set"
  crawled_projects_for_forkers :: "string set"
  file_path :: "string option"

definition init :: "string option \<Rightarrow> developer_base" where
  "init fp =
     \<lparr>developers = [], corrupted_user_names = [],
      crawled_projects_for_contributors = {}, crawled_projects_for_stargazers = {},
      crawled_projects_for_forkers = {}, file_path = fp\<rparr>"

section \<open>DeveloperBase.add\<close>

definition new_entry :: "string \<Rightarrow> user_attributes \<Rightarrow> developer" where
  "new_entry k a =
     \<lparr>name = name a, twitter_username = twitter_username a, email = email a,
      location = location a, company = company a, bio = bio a, blog = blog a,
      github_url = ''https://github.com/'' @ k,
      contributed_to = {}, stared = {}, forked = {}\<rparr>"

definition add_projects :: "string set \<Rightarrow> string set \<Rightarrow> string set \<Rightarrow> developer \<Rightarrow> developer" where
  "add_projects c f s d =
     d\<lparr>contributed_to := contributed_to d \<union> c, forked := forked d \<union> f, stared := stared d \<union> s\<rparr>"

text \<open>
  The body of the \<open>try\<close> block.  The dict literal reads the attributes before the entry
  is assigned, so an exception of the attribute request leaves \<open>self\<close> as it was.
\<close>

definition add_try ::
  "developer_base \<Rightarrow> named_user \<Rightarrow> string set \<Rightarrow> string set \<Rightarrow> string set \<Rightarrow> exc + developer_base"
where
  "add_try self github_user c f s =
     (let k = login github_user in
      case (if map_of (developers self) k = None then
              (case attributes github_user of
                 Inl e \<Rightarrow> Inl e
               | Inr a \<Rightarrow> Inr (AList.update k (new_entry k a) (developers self)))
            else Inr (developers self)) of
        Inl e \<Rightarrow> Inl e
      | Inr ds \<Rightarrow> Inr (self\<lparr>developers := AList.map_entry k (add_projects c f s) ds\<rparr>))"

text \<open>
  \<open>add\<close> returns the updated base and the exception that leaves the call, if any.
  Only \<open>UnknownObjectException\<close> is caught.
\<close>

definition add ::
  "developer_base \<Rightarrow> named_user \<Rightarrow> string set \<Rightarrow> string set \<Rightarrow> string set
     \<Rightarrow> developer_base \<times> exc option"
where
  "add self github_user c f s =
     (case add_try self github_user c f s of
        Inr self' \<Rightarrow> (self', None)
      | Inl UnknownObjectException \<Rightarrow>
          (self\<lparr>corrupted_user_names := corrupted_user_names self @ [login github_user]\<rparr>, None)
      | Inl e \<Rightarrow> (self, Some e))"

text \<open>The relation sets stored for a login; empty when the login has no record.\<close>

definition stored :: "developer_base \<Rightarrow> string \<Rightarrow> (developer \<Rightarrow> string set) \<Rightarrow> string set" where
  "stored self k kind = (case map_of (developers self) k of None \<Rightarrow> {} | Some d \<Rightarrow> kind d)"

section \<open>DeveloperBase.rank_developers\<close>




section \<open>The platform, and what a crawl does to it\<close>

text \<open>
  A \<open>PaginatedList\<close> is a lazy sequence: iterating it yields items until it ends or
  until the request for the next page raises.
\<close>

datatype 'a paginated = End | Item 'a "'a paginated" | Raises exc

fun items :: "'a paginated \<Rightarrow> 'a list" where
  "items End = []"
| "items (Item x xs) = x # items xs"
| "items (Raises e) = []"

fun failure :: "'a paginated \<Rightarrow> exc option" where
  "failure End = None"
| "failure (Item x xs) = failure xs"
| "failure (Raises e) = Some e"

text \<open>
  A fork as \<open>add_forkers\<close> reads it (\<open>fork.full_name\<close>, \<open>fork.owner\<close>), and a
  repository.  \<open>get_contributors\<close> and its siblings are \<open>Inl\<close> when the call or the
  \<open>totalCount\<close> read before the loop raises.
\<close>

record fork =
  fork_full_name :: string
  owner :: named_user

record repository =
  full_name :: string
  get_contributors :: "exc + named_user paginated"
  get_stargazers :: "exc + named_user paginated"
  get_forks :: "exc + fork paginated"

text \<open>
  The trace of a run lists what the program asks of the platform and of the operating
  system: repository lookups, the listing requests of the three relation kinds, sleeps
  and snapshots.  Log lines are left out.
\<close>

datatype relation_kind = Contributors | Stargazers | Forkers

datatype event =
    GetRepo string
  | Fetch relation_kind string
  | Sleep real
  | Save string developer_base

text \<open>
  A statement of the program: it changes the state, adds to the trace and either ends
  normally or raises.  A raise keeps the changes made so far, as mutation in place does.
\<close>

type_synonym 's result = "'s \<times> event list \<times> exc option"

definition then_do :: "'s result \<Rightarrow> ('s \<Rightarrow> 's result) \<Rightarrow> 's result" where
  "then_do r f =
     (case r of
        (s, tr, Some e) \<Rightarrow> (s, tr, Some e)
      | (s, tr, None) \<Rightarrow> (case f s of (s', tr', x) \<Rightarrow> (s', tr @ tr', x)))"

text \<open>\<open>time.sleep\<close> raises \<open>ValueError\<close> for a negative length.\<close>

definition time_sleep :: "real \<Rightarrow> 's \<Rightarrow> 's result" where
  "time_sleep secs s = (if secs < 0 then (s, [], Some ValueError) else (s, [Sleep secs], None))"

text \<open>\<open>for x in xs: body\<close>\<close>

fun for_each :: "('a \<Rightarrow> 's \<Rightarrow> 's result) \<Rightarrow> 'a paginated \<Rightarrow> 's \<Rightarrow> 's result" where
  "for_each body End s = (s, [], None)"
| "for_each body (Raises e) s = (s, [], Some e)"
| "for_each body (Item x xs) s = then_do (body x s) (for_each body xs)"

definition call_add ::
  "named_user \<Rightarrow> string set \<Rightarrow> string set \<Rightarrow> string set \<Rightarrow> developer_base \<Rightarrow> developer_base result"
where
  "call_add github_user c f s self = (case add self github_user c f s of (self', x) \<Rightarrow> (self', [], x))"

section \<open>The per-kind crawl operations\<close>

definition add_contributors :: "developer_base \<Rightarrow> repository \<Rightarrow> real \<Rightarrow> developer_base result" where
  "add_contributors self repo dt =
     (if full_name repo \<in> crawled_projects_for_contributors self then (self, [], None)
      else
        case get_contributors repo of
          Inl e \<Rightarrow> (self, [Fetch Contributors (full_name repo)], Some e)
        | Inr contributors \<Rightarrow>
            then_do
              (then_do (self, [Fetch Contributors (full_name repo)], None)
                 (for_each
                    (\<lambda>contributor self.
                       then_do (call_add contributor {full_name repo} {} {} self) (time_sleep dt))
                    contributors))
              (\<lambda>self.
                 (self\<lparr>crawled_projects_for_contributors :=
                          insert (full_name repo) (crawled_projects_for_contributors self)\<rparr>,
                  [], None)))"

definition add_stargazers :: "developer_base \<Rightarrow> repository \<Rightarrow> real \<Rightarrow> developer_base result" where
  "add_stargazers self repo dt =
     (if full_name repo \<in> crawled_projects_for_stargazers self then (self, [], None)
      else
        case get_stargazers repo of
          Inl e \<Rightarrow> (self, [Fetch Stargazers (full_name repo)], Some e)
        | Inr stargazers \<Rightarrow>
            then_do
              (then_do (self, [Fetch Stargazers (full_name repo)], None)
                 (for_each
                    (\<lambda>stargazer self.
                       then_do (call_add stargazer {} {} {full_name repo} self) (time_sleep dt))
                    stargazers))
              (\<lambda>self.
                 (self\<lparr>crawled_projects_for_stargazers :=
                          insert (full_name repo) (crawled_projects_for_stargazers self)\<rparr>,
                  [], None)))"

text \<open>
  \<open>add_forkers\<close> also returns the list \<open>forked_projects\<close>.  The loop runs on the pair of
  the base and that list; when the call raises there is no return value, and the list
  of the result is the local list at that moment.
\<close>

definition forkers_body :: "string \<Rightarrow> real \<Rightarrow> fork \<Rightarrow> developer_base \<times> string list
    \<Rightarrow> (developer_base \<times> string list) result" where
  "forkers_body repo_name dt fork' st =
     (case st of (self, forked_projects) \<Rightarrow>
        (case add self (owner fork') {} {repo_name} {} of
           (self', Some e) \<Rightarrow> ((self', forked_projects), [], Some e)
         | (self', None) \<Rightarrow> time_sleep dt (self', forked_projects @ [fork_full_name fork'])))"

definition add_forkers ::
  "developer_base \<Rightarrow> repository \<Rightarrow> real \<Rightarrow> (developer_base \<times> string list) result"
where
  "add_forkers self repo dt =
     (if full_name repo \<in> crawled_projects_for_forkers self then ((self, []), [], None)
      else
        case get_forks repo of
          Inl e \<Rightarrow> ((self, []), [Fetch Forkers (full_name repo)], Some e)
        | Inr forks \<Rightarrow>
            then_do
              (then_do ((self, []), [Fetch Forkers (full_name repo)], None)
                 (for_each (forkers_body (full_name repo) dt) forks))
              (\<lambda>(self, forked_projects).
                 ((self\<lparr>crawled_projects_for_forkers :=
                           insert (full_name repo) (crawled_projects_for_forkers self)\<rparr>,
                   forked_projects),
                  [], None)))"

text \<open>\<open>save\<close> pickles the base when \<open>file_path\<close> is truthy (neither \<open>None\<close> nor empty).\<close>

definition save :: "developer_base \<Rightarrow> developer_base result" where
  "save self =
     (case file_path self of
        None \<Rightarrow> (self, [], None)
      | Some p \<Rightarrow> if p = [] then (self, [], None) else (self, [Save p self], None))"

section \<open>DeveloperBase.find_developers\<close>

text \<open>
  What the run reads from outside.  The natural number is the number of the loop
  iteration, so that an answer may differ from one attempt to the next;
  \<open>clock\<close> is \<open>int(time.time())\<close>.  \<open>projects\<close> is a Python set: a list without
  duplicates, from which \<open>pop\<close> takes the element that \<open>pop_choice\<close> selects, which
  covers every order a set may have.
\<close>

record platform =
  rate_limiting :: "int \<times> int"
  get_repo :: "nat \<Rightarrow> string \<Rightarrow> exc + repository"
  rate_limiting_resettime :: "nat \<Rightarrow> int"
  clock :: "nat \<Rightarrow> int"
  pop_choice :: "nat \<Rightarrow> string list \<Rightarrow> nat"

definition set_add :: "string \<Rightarrow> string list \<Rightarrow> string list" where
  "set_add x xs = (if x \<in> set xs then xs else xs @ [x])"

definition set_update :: "string list \<Rightarrow> string list \<Rightarrow> string list" where
  "set_update xs ys = fold set_add ys xs"

definition set_pop :: "nat \<Rightarrow> string list \<Rightarrow> string \<times> string list" where
  "set_pop i xs = (xs ! (i mod length xs), take (i mod length xs) xs @ drop (Suc (i mod length xs)) xs)"

record options =
  go_recursive :: bool
  ignore_contributors :: bool
  ignore_forkers :: bool
  ignore_stargazers :: bool

text \<open>
  The variables of the loop: the base, the frontier and the local \<open>forked_projects\<close>,
  which is unbound (\<open>None\<close>) until \<open>add_forkers\<close> has returned once.
\<close>

record crawl =
  base :: developer_base
  projects :: "string list"
  forked_projects :: "string list option"

definition pacing :: "bool \<Rightarrow> platform \<Rightarrow> real" where
  "pacing ignore_rate_limiting G =
     (if ignore_rate_limiting then 0.0
      else case rate_limiting G of
             (n_request_remaining, n_requests_total) \<Rightarrow> 1.01 * of_int n_requests_total / 3600)"

definition on_base :: "(developer_base \<Rightarrow> developer_base result) \<Rightarrow> crawl \<Rightarrow> crawl result" where
  "on_base f st = (case f (base st) of (self, tr, x) \<Rightarrow> (st\<lparr>base := self\<rparr>, tr, x))"

definition crawl_contributors :: "options \<Rightarrow> repository \<Rightarrow> real \<Rightarrow> crawl \<Rightarrow> crawl result" where
  "crawl_contributors opts repo dt st =
     (if \<not> ignore_contributors opts
      then on_base (\<lambda>self. then_do (add_contributors self repo dt) save) st
      else (st, [], None))"

definition crawl_stargazers :: "options \<Rightarrow> repository \<Rightarrow> real \<Rightarrow> crawl \<Rightarrow> crawl result" where
  "crawl_stargazers opts repo dt st =
     (if \<not> ignore_stargazers opts
      then on_base (\<lambda>self. then_do (add_stargazers self repo dt) save) st
      else (st, [], None))"

definition crawl_forkers :: "options \<Rightarrow> repository \<Rightarrow> real \<Rightarrow> crawl \<Rightarrow> crawl result" where
  "crawl_forkers opts repo dt st =
     (if \<not> ignore_forkers opts
      then
        (case add_forkers (base st) repo dt of
           ((self, fps), tr, Some e) \<Rightarrow> (st\<lparr>base := self\<rparr>, tr, Some e)
         | ((self, fps), tr, None) \<Rightarrow>
             then_do (st\<lparr>base := self, forked_projects := Some fps\<rparr>, tr, None) (on_base save))
      else (st, [], None))"

definition crawl_recursive :: "options \<Rightarrow> crawl \<Rightarrow> crawl result" where
  "crawl_recursive opts st =
     (if go_recursive opts
      then
        (case forked_projects st of
           None \<Rightarrow> (st, [], Some NameError)
         | Some fps \<Rightarrow> (st\<lparr>projects := set_update (projects st) fps\<rparr>, [], None))
      else (st, [], None))"

text \<open>
  The three stages of one repository, each followed by \<open>save\<close>; a stage that raises
  ends the sequence.
\<close>

definition crawl_stages :: "options \<Rightarrow> repository \<Rightarrow> real \<Rightarrow> crawl result \<Rightarrow> crawl result" where
  "crawl_stages opts repo dt r =
     then_do
       (then_do (then_do r (crawl_contributors opts repo dt)) (crawl_stargazers opts repo dt))
       (crawl_forkers opts repo dt)"

text \<open>The body of the \<open>try\<close> block of one loop iteration (the frontier is not empty).\<close>

definition find_developers_try ::
  "platform \<Rightarrow> options \<Rightarrow> real \<Rightarrow> nat \<Rightarrow> crawl \<Rightarrow> crawl result"
where
  "find_developers_try G opts dt n st =
     (case set_pop (pop_choice G n (projects st)) (projects st) of
        (project, rest) \<Rightarrow>
          (case get_repo G n project of
             Inl e \<Rightarrow> (st\<lparr>projects := rest\<rparr>, [GetRepo project], Some e)
           | Inr repo \<Rightarrow>
               then_do
                 (crawl_stages opts repo dt (st\<lparr>projects := rest\<rparr>, [GetRepo project], None))
                 (crawl_recursive opts)))"

text \<open>
  One loop iteration: the \<open>try\<close> block and the handler of
  \<open>RateLimitExceededException\<close>, which puts the project back and sleeps.
\<close>

definition find_developers_iteration ::
  "platform \<Rightarrow> options \<Rightarrow> real \<Rightarrow> nat \<Rightarrow> crawl \<Rightarrow> crawl result"
where
  "find_developers_iteration G opts dt n st =
     (case find_developers_try G opts dt n st of
        (st', tr, None) \<Rightarrow> (st', tr, None)
      | (st', tr, Some e) \<Rightarrow>
          if e = RateLimitExceededException then
            (let project = fst (set_pop (pop_choice G n (projects st)) (projects st));
                 dt_wait = rate_limiting_resettime G n - clock G n + 10
             in then_do (st'\<lparr>projects := set_add project (projects st')\<rparr>, tr, None)
                  (time_sleep (of_int dt_wait)))
          else (st', tr, Some e))"

text \<open>
  \<open>while len(projects): ...\<close> with fuel: the loop need not end (the platform may
  refuse every request), so a run is cut after \<open>fuel\<close> iterations and says so.
\<close>

datatype outcome = Completed | Raised exc | OutOfFuel

fun find_developers_loop ::
  "platform \<Rightarrow> options \<Rightarrow> real \<Rightarrow> nat \<Rightarrow> nat \<Rightarrow> crawl \<Rightarrow> crawl \<times> event list \<times> outcome"
where
  "find_developers_loop G opts dt 0 n st =
     (if projects st = [] then (st, [], Completed) else (st, [], OutOfFuel))"
| "find_developers_loop G opts dt (Suc fuel) n st =
     (if projects st = [] then (st, [], Completed)
      else
        case find_developers_iteration G opts dt n st of
          (st', tr, Some e) \<Rightarrow> (st', tr, Raised e)
        | (st', tr, None) \<Rightarrow>
            (case find_developers_loop G opts dt fuel (Suc n) st' of
               (st'', tr', out) \<Rightarrow> (st'', tr @ tr', out)))"

definition find_developers ::
  "(string \<Rightarrow> platform) \<Rightarrow> nat \<Rightarrow> developer_base \<Rightarrow> string \<Rightarrow> string list
     \<Rightarrow> bool \<Rightarrow> bool \<Rightarrow> bool \<Rightarrow> bool \<Rightarrow> bool \<Rightarrow> crawl \<times> event list \<times> outcome"
where
  "find_developers Github fuel self gh_token projects' go_recursive' ignore_contributors'
      ignore_forkers' ignore_stargazers' ignore_rate_limiting =
     (let G = Github gh_token;
          dt = pacing ignore_rate_limiting G;
          opts = \<lparr>go_recursive = go_recursive', ignore_contributors = ignore_contributors',
                  ignore_forkers = ignore_forkers', ignore_stargazers = ignore_stargazers'\<rparr>
      in find_developers_loop G opts dt fuel 0
           \<lparr>base = self, projects = remdups projects', forked_projects = None\<rparr>)"

section \<open>GeoParser\<close>

text \<open>
  Strings are byte strings here: \<open>lower\<close> maps the ASCII capitals and \<open>strip\<close> removes
  ASCII white space, which is what Python does on text whose capitals and blanks are
  ASCII.  The city table \<open>worldcities.csv\<close> is a parameter.
\<close>

record city_row =
  city :: string
  city_ascii :: string
  country :: string

definition lower_char :: "char \<Rightarrow> char" where
  "lower_char c =
     (let n = (of_char c :: nat) in if 65 \<le> n \<and> n \<le> 90 then char_of (n + 32) else c)"

definition lower :: "string \<Rightarrow> string" where
  "lower s = map lower_char s"

definition is_space :: "char \<Rightarrow> bool" where
  "is_space c = (let n = (of_char c :: nat) in n = 32 \<or> (9 \<le> n \<and> n \<le> 13) \<or> (28 \<le> n \<and> n \<le> 31))"

definition strip :: "string \<Rightarrow> string" where
  "strip s = rev (dropWhile is_space (rev (dropWhile is_space s)))"

fun split_comma :: "string \<Rightarrow> string list" where
  "split_comma [] = [[]]"
| "split_comma (c # cs) =
     (if c = CHR '','' then [] # split_comma cs
      else case split_comma cs of
             [] \<Rightarrow> [[c]]
           | w # ws \<Rightarrow> (c # w) # ws)"

text \<open>\<open>Series.unique\<close>: the values in the order of their first occurrence.\<close>

definition unique :: "'a list \<Rightarrow> 'a list" where
  "unique xs = rev (remdups (rev xs))"

fun drop_duplicates :: "(string \<times> string) list \<Rightarrow> city_row list \<Rightarrow> city_row list" where
  "drop_duplicates seen [] = []"
| "drop_duplicates seen (r # rs) =
     (if (city r, country r) \<in> set seen then drop_duplicates seen rs
      else r # drop_duplicates ((city r, country r) # seen) rs)"

definition GeoParser_init :: "city_row list \<Rightarrow> city_row list" where
  "GeoParser_init csv =
     drop_duplicates []
       (map (\<lambda>r. \<lparr>city = lower (city r), city_ascii = lower (city_ascii r),
                   country = lower (country r)\<rparr>) csv)"

text \<open>\<open>location\<close> is \<open>None\<close> when the argument is not a \<open>str\<close>.\<close>

definition parse_location :: "city_row list \<Rightarrow> string option \<Rightarrow> string list \<times> string list" where
  "parse_location df location' =
     (case location' of
        None \<Rightarrow> ([], [])
      | Some l \<Rightarrow>
          let locs = map (\<lambda>loc. lower (strip loc)) (split_comma l);
              estimated_cities = unique (map city_ascii (filter (\<lambda>r. city r \<in> set locs) df));
              estimated_countries = unique (map country (filter (\<lambda>r. country r \<in> set locs) df));
              estimated_countries =
                (if length estimated_countries = 0 \<and> length estimated_cities > 0
                 then unique (map country (filter (\<lambda>r. city r \<in> set estimated_cities) df))
                 else estimated_countries)
          in (estimated_countries, estimated_cities))"

text \<open>The completion ledger of a relation kind.\<close>

fun completed :: "developer_base \<Rightarrow> relation_kind \<Rightarrow> string set" where
  "completed self Contributors = crawled_projects_for_contributors self"
| "completed self Stargazers = crawled_projects_for_stargazers self"
| "completed self Forkers = crawled_projects_for_forkers self"

text \<open>
  What a call of \<open>add\<close> that returned leaves behind for a user: the login is in the
  list of corrupted entries, or the user has a record whose relation sets contain the
  sets of the call.
\<close>

definition added :: "developer_base \<Rightarrow> named_user \<Rightarrow> string set \<Rightarrow> string set \<Rightarrow> string set \<Rightarrow> bool" where
  "added self u c f s =
     (login u \<in> set (corrupted_user_names self) \<or>
      (c \<subseteq> stored self (login u) contributed_to \<and> f \<subseteq> stored self (login u) forked \<and>
       s \<subseteq> stored self (login u) stared))"

text \<open>
  What every stage of an iteration guarantees, from the state \<open>st\<close> it starts in: the
  ledgers only grow, a listing is requested only for a repository that the ledger of
  its kind does not hold, every sleep has the length \<open>dt\<close>, the frontier only grows,
  and \<open>forked_projects\<close> is left alone when forkers are ignored.
\<close>

definition stage_ok :: "options \<Rightarrow> real \<Rightarrow> crawl \<Rightarrow> crawl result \<Rightarrow> bool" where
  "stage_ok opts dt st res =
     (case res of (st', tr, r) \<Rightarrow>
        (\<forall>k. completed (base st) k \<subseteq> completed (base st') k) \<and>
        (\<forall>k n. Fetch k n \<in> set tr \<longrightarrow> n \<notin> completed (base st) k) \<and>
        (\<forall>secs. Sleep secs \<in> set tr \<longrightarrow> secs = dt) \<and>
        set (projects st) \<subseteq> set (projects st') \<and>
        (ignore_forkers opts \<longrightarrow> forked_projects st' = forked_projects st))"

section \<open>Concrete inputs\<close>

definition example_attributes :: "string \<Rightarrow> string option \<Rightarrow> user_attributes" where
  "example_attributes n e =
     \<lparr>name = Some n, twitter_username = None, email = e, location = None,
      company = None, bio = None, blog = None\<rparr>"

definition example_user :: "string \<Rightarrow> string \<Rightarrow> string option \<Rightarrow> named_user" where
  "example_user k n e = \<lparr>login = k, attributes = Inr (example_attributes n e)\<rparr>"

definition gone_user :: "string \<Rightarrow> named_user" where
  "gone_user k = \<lparr>login = k, attributes = Inl UnknownObjectException\<rparr>"

definition example_base :: developer_base where
  "example_base =
     (init None)\<lparr>developers :=
        [(''octocat'', new_entry ''octocat'' (example_attributes ''Old Name'' None))]\<rparr>"


text \<open>
  The UTF-8 bytes of the city name Sao Paulo, written with a tilde on the first a, and
  its row of \<open>worldcities.csv\<close>.
\<close>

definition sao_paulo :: string where
  "sao_paulo = ''S'' @ [CHR 0xC3, CHR 0xA3] @ ''o Paulo''"

definition example_csv :: "city_row list" where
  "example_csv = [\<lparr>city = sao_paulo, city_ascii = ''Sao Paulo'', country = ''Brazil''\<rparr>]"


text \<open>
  A repository with one contributor, and a platform that answers the first
  \<open>limited\<close> iterations with the rate limit and knows this repository only.
\<close>

definition small_repo :: repository where
  "small_repo =
     \<lparr>full_name = ''a/b'',
      get_contributors = Inr (Item (example_user ''alice'' ''Alice'' None) End),
      get_stargazers = Inr End,
      get_forks = Inr End\<rparr>"

definition example_platform :: "nat \<Rightarrow> platform" where
  "example_platform limited =
     \<lparr>rate_limiting = (4999, 5000),
      get_repo = (\<lambda>n p. if n < limited then Inl RateLimitExceededException
                         else if p = ''a/b'' then Inr small_repo
                         else Inl UnknownObjectException),
      rate_limiting_resettime = (\<lambda>n. 1000),
      clock = (\<lambda>n. 400),
      pop_choice = (\<lambda>n xs. 0)\<rparr>"



definition crawled_base :: developer_base where
  "crawled_base = (init None)\<lparr>crawled_projects_for_contributors := {''a/b''}\<rparr>"

section \<open>Properties of add\<close>

lemma add_present:
  "map_of (developers self) (login u) = Some d \<Longrightarrow>
   add self u c f s =
     (self\<lparr>developers := AList.map_entry (login u) (add_projects c f s) (developers self)\<rparr>, None)"
  by (simp add: add_def add_try_def Let_def)

lemma add_fresh:
  "map_of (developers self) (login u) = None \<Longrightarrow> attributes u = Inr a \<Longrightarrow>
   add self u c f s =
     (self\<lparr>developers := AList.map_entry (login u) (add_projects c f s)
        (AList.update (login u) (new_entry (login u) a) (developers self))\<rparr>, None)"
  by (simp add: add_def add_try_def Let_def)

lemma add_unknown:
  "map_of (developers self) (login u) = None \<Longrightarrow> attributes u = Inl UnknownObjectException \<Longrightarrow>
   add self u c f s =
     (self\<lparr>corrupted_user_names := corrupted_user_names self @ [login u]\<rparr>, None)"
  by (simp add: add_def add_try_def Let_def)

lemma add_raises:
  "map_of (developers self) (login u) = None \<Longrightarrow> attributes u = Inl e \<Longrightarrow>
   e \<noteq> UnknownObjectException \<Longrightarrow> add self u c f s = (self, Some e)"
  by (cases e) (simp_all add: add_def add_try_def Let_def)

lemma map_of_map_entry_same:
  "map_of (AList.map_entry k g xs) k = map_option g (map_of xs k)"
  by (simp add: map_of_map_entry split: option.splits)

text \<open>
  C1 (as amended).  When the login already has a record, \<open>add\<close> returns normally, the
  three relation sets of the record are united with the sets of the call, and every
  other field of the record, the scalar profile fields among them, keeps the value it
  had: the attributes of the user passed to this call are not read.
\<close>

theorem add_existing_login:
  assumes "map_of (developers self) (login u) = Some d"
  shows "snd (add self u c f s) = None \<and>
         map_of (developers (fst (add self u c f s))) (login u) =
           Some (d\<lparr>contributed_to := contributed_to d \<union> c, forked := forked d \<union> f,
                   stared := stared d \<union> s\<rparr>)"
  using assms by (simp add: add_present map_of_map_entry_same add_projects_def)

theorem add_existing_login_witness:
  "map_of (developers example_base) (login (example_user ''octocat'' ''New Name'' None)) =
     Some (new_entry ''octocat'' (example_attributes ''Old Name'' None)) \<and>
   snd (add example_base (example_user ''octocat'' ''New Name'' None) {''a/b''} {} {}) = None \<and>
   map_option contributed_to
     (map_of (developers (fst (add example_base (example_user ''octocat'' ''New Name'' None) {''a/b''} {} {})))
        ''octocat'') = Some {''a/b''}"
proof -
  have h: "map_of (developers example_base) (login (example_user ''octocat'' ''New Name'' None)) =
     Some (new_entry ''octocat'' (example_attributes ''Old Name'' None))"
    by (simp add: example_base_def example_user_def init_def)
  have k: "login (example_user ''octocat'' ''New Name'' None) = ''octocat''"
    by (simp add: example_user_def)
  from add_existing_login [OF h, of "{''a/b''}" "{}" "{}"] h k show ?thesis
    by (simp add: new_entry_def)
qed

text \<open>
  C1 as stated fails: the base holds \<open>octocat\<close> with the name \<open>Old Name\<close>; \<open>add\<close> is
  called with a user of the same login whose name is \<open>New Name\<close>; the stored name is
  still \<open>Old Name\<close>.
\<close>

theorem add_overwrites_profile_counterexample:
  "map_of (developers example_base) ''octocat'' \<noteq> None \<and>
   attributes (example_user ''octocat'' ''New Name'' None) = Inr (example_attributes ''New Name'' None) \<and>
   name (example_attributes ''New Name'' None) = Some ''New Name'' \<and>
   map_option name
     (map_of (developers (fst (add example_base (example_user ''octocat'' ''New Name'' None) {} {} {})))
        ''octocat'') = Some (Some ''Old Name'')"
  by (simp add: add_def add_try_def Let_def example_base_def example_user_def init_def
      example_attributes_def new_entry_def add_projects_def)



text \<open>
  C6.  The profile of a user is resolved when the login has no record.  If that
  request raises \<open>UnknownObjectException\<close>, \<open>add\<close> returns normally, the login is
  appended to \<open>corrupted_user_names\<close>, and nothing else of the base changes: no
  record is created and none is touched.
\<close>

theorem add_unknown_user_is_recorded:
  assumes "map_of (developers self) (login u) = None"
    and "attributes u = Inl UnknownObjectException"
  shows "add self u c f s =
           (self\<lparr>corrupted_user_names := corrupted_user_names self @ [login u]\<rparr>, None)"
  using assms by (rule add_unknown)

theorem add_unknown_user_is_recorded_witness:
  "add (init None) (gone_user ''ghost'') {''a/b''} {} {} =
     ((init None)\<lparr>corrupted_user_names := [''ghost'']\<rparr>, None)"
proof -
  have h1: "map_of (developers (init None)) (login (gone_user ''ghost'')) = None"
    by (simp add: init_def)
  have h2: "attributes (gone_user ''ghost'') = Inl UnknownObjectException"
    by (simp add: gone_user_def)
  from add_unknown_user_is_recorded [OF h1 h2, of "{''a/b''}" "{}" "{}"] show ?thesis
    by (simp add: gone_user_def init_def)
qed

section \<open>Properties of the loops\<close>

lemma add_cases:
  obtains
    (present) d where "map_of (developers self) (login u) = Some d"
      "add self u c f s =
        (self\<lparr>developers := AList.map_entry (login u) (add_projects c f s) (developers self)\<rparr>, None)"
  | (fresh) a where "map_of (developers self) (login u) = None" "attributes u = Inr a"
      "add self u c f s =
        (self\<lparr>developers := AList.map_entry (login u) (add_projects c f s)
           (AList.update (login u) (new_entry (login u) a) (developers self))\<rparr>, None)"
  | (unknown) "map_of (developers self) (login u) = None"
      "add self u c f s =
        (self\<lparr>corrupted_user_names := corrupted_user_names self @ [login u]\<rparr>, None)"
  | (raises) e where "map_of (developers self) (login u) = None" "e \<noteq> UnknownObjectException"
      "add self u c f s = (self, Some e)"
proof (cases "map_of (developers self) (login u)")
  case (Some d)
  then show ?thesis using add_present present by blast
next
  case None
  show ?thesis
  proof (cases "attributes u")
    case (Inr a)
    with None show ?thesis using add_fresh fresh by blast
  next
    case (Inl e)
    show ?thesis
    proof (cases "e = UnknownObjectException")
      case True
      with None Inl show ?thesis using add_unknown unknown by blast
    next
      case False
      with None Inl show ?thesis using add_raises raises by blast
    qed
  qed
qed

lemma add_keeps_ledger:
  "crawled_projects_for_contributors (fst (add self u c f s)) = crawled_projects_for_contributors self"
  "crawled_projects_for_stargazers (fst (add self u c f s)) = crawled_projects_for_stargazers self"
  "crawled_projects_for_forkers (fst (add self u c f s)) = crawled_projects_for_forkers self"
  "file_path (fst (add self u c f s)) = file_path self"
  by (cases rule: add_cases [of self u c f s]; simp)+

lemma add_keeps_completed: "completed (fst (add self u c f s)) kind = completed self kind"
  by (cases kind) (simp_all add: add_keeps_ledger)

lemma add_stored_mono:
  assumes "kind = contributed_to \<or> kind = forked \<or> kind = stared"
  shows "stored self k kind \<subseteq> stored (fst (add self u c f s)) k kind"
proof (cases rule: add_cases [of self u c f s])
  case (present d)
  then show ?thesis using assms
    by (auto simp: stored_def map_of_map_entry add_projects_def split: option.splits if_splits)
next
  case (fresh a)
  then show ?thesis using assms
    by (auto simp: stored_def map_of_map_entry update_conv' add_projects_def split: option.splits if_splits)
next
  case unknown
  then show ?thesis by (simp add: stored_def)
next
  case (raises e)
  then show ?thesis by simp
qed

lemma add_corrupted_mono:
  "set (corrupted_user_names self) \<subseteq> set (corrupted_user_names (fst (add self u c f s)))"
  by (cases rule: add_cases [of self u c f s]) auto

lemma add_stored_after:
  assumes "add self u c f s = (self', None)"
  shows "login u \<in> set (corrupted_user_names self') \<or>
         (c \<subseteq> stored self' (login u) contributed_to \<and> f \<subseteq> stored self' (login u) forked \<and>
          s \<subseteq> stored self' (login u) stared)"
proof (cases rule: add_cases [of self u c f s])
  case (present d)
  then show ?thesis using assms
    by (auto simp: stored_def map_of_map_entry add_projects_def split: option.splits if_splits)
next
  case (fresh a)
  then show ?thesis using assms
    by (auto simp: stored_def map_of_map_entry update_conv' add_projects_def split: option.splits if_splits)
next
  case unknown
  then show ?thesis using assms by auto
next
  case (raises e)
  then show ?thesis using assms by simp
qed

lemma then_do_raise [simp]: "then_do (s, tr, Some e) f = (s, tr, Some e)"
  by (simp add: then_do_def)

lemma then_do_normal [simp]:
  "then_do (s, tr, None) f = (case f s of (s', tr', x) \<Rightarrow> (s', tr @ tr', x))"
  by (simp add: then_do_def)

lemma then_doE:
  assumes "then_do r f = (s', tr, x)"
  obtains (raise) e where "r = (s', tr, Some e)" "x = Some e"
  | (normal) s1 tr1 tr2 where "r = (s1, tr1, None)" "f s1 = (s', tr2, x)" "tr = tr1 @ tr2"
  using assms by (auto simp: then_do_def split: prod.splits option.splits)

lemma for_each_invariant:
  assumes "\<And>x s s' tr r. body x s = (s', tr, r) \<Longrightarrow> I s \<Longrightarrow> I s'"
  shows "for_each body xs s = (s', tr, r) \<Longrightarrow> I s \<Longrightarrow> I s'"
proof (induction xs arbitrary: s s' tr r)
  case End
  then show ?case by simp
next
  case (Item x xs)
  from Item.prems(1) have "then_do (body x s) (for_each body xs) = (s', tr, r)"
    by simp
  then show ?case
  proof (cases rule: then_doE)
    case (raise e)
    with assms Item.prems(2) show ?thesis by blast
  next
    case (normal s1 tr1 tr2)
    with assms Item.prems(2) have "I s1" by blast
    with Item.IH normal(2) show ?thesis by blast
  qed
next
  case (Raises e)
  then show ?case by simp
qed

lemma for_each_events:
  assumes "\<And>x s s' tr r. body x s = (s', tr, r) \<Longrightarrow> \<forall>e\<in>set tr. P e"
  shows "for_each body xs s = (s', tr, r) \<Longrightarrow> \<forall>e\<in>set tr. P e"
proof (induction xs arbitrary: s s' tr r)
  case End
  then show ?case by simp
next
  case (Item x xs)
  from Item.prems(1) have "then_do (body x s) (for_each body xs) = (s', tr, r)"
    by simp
  then show ?case
  proof (cases rule: then_doE)
    case (raise e)
    with assms show ?thesis by blast
  next
    case (normal s1 tr1 tr2)
    from assms normal(1) have "\<forall>e\<in>set tr1. P e" by blast
    moreover from Item.IH normal(2) have "\<forall>e\<in>set tr2. P e" by blast
    ultimately show ?thesis using normal(3) by auto
  qed
next
  case (Raises e)
  then show ?case by simp
qed

lemma for_each_normal: "for_each body xs s = (s', tr, None) \<Longrightarrow> failure xs = None"
proof (induction xs arbitrary: s s' tr)
  case (Item x xs)
  from Item.prems have "then_do (body x s) (for_each body xs) = (s', tr, None)"
    by simp
  then show ?case
    by (cases rule: then_doE) (use Item.IH in auto)
qed simp_all

lemma for_each_all_items:
  assumes step: "\<And>x s s' tr. body x s = (s', tr, None) \<Longrightarrow> Q x s'"
    and mono: "\<And>x y s s' tr r. body y s = (s', tr, r) \<Longrightarrow> Q x s \<Longrightarrow> Q x s'"
  shows "for_each body xs s = (s', tr, None) \<Longrightarrow> x \<in> set (items xs) \<Longrightarrow> Q x s'"
proof (induction xs arbitrary: s s' tr)
  case End
  then show ?case by simp
next
  case (Item y ys)
  from Item.prems(1) have "then_do (body y s) (for_each body ys) = (s', tr, None)"
    by simp
  then show ?case
  proof (cases rule: then_doE)
    case (raise e)
    then show ?thesis by simp
  next
    case (normal s1 tr1 tr2)
    show ?thesis
    proof (cases "x = y")
      case True
      from step normal(1) have "Q y s1" by blast
      moreover have "\<And>z s s' tr r. body z s = (s', tr, r) \<Longrightarrow> Q y s \<Longrightarrow> Q y s'"
        using mono by blast
      ultimately have "Q y s'"
        using normal(2) by (rule for_each_invariant [where I = "Q y" and body = body, rotated 2])
      with True show ?thesis by simp
    next
      case False
      with Item.prems(2) have "x \<in> set (items ys)" by simp
      with Item.IH normal(2) show ?thesis by blast
    qed
  qed
next
  case (Raises e)
  then show ?case by simp
qed

text \<open>One pass of the loops of \<open>add_contributors\<close> and \<open>add_stargazers\<close>.\<close>

lemma add_then_sleep:
  assumes "then_do (call_add u c f s self) (time_sleep dt) = (self', tr, r)"
  shows "self' = fst (add self u c f s)"
    and "\<forall>e\<in>set tr. e = Sleep dt"
    and "r = None \<Longrightarrow> add self u c f s = (self', None)"
  using assms
  by (auto simp: call_add_def time_sleep_def then_do_def split: prod.splits option.splits if_splits)

lemma forkers_body_result:
  assumes "forkers_body n dt fk (self, fps) = ((self', fps'), tr, r)"
  shows "self' = fst (add self (owner fk) {} {n} {})"
    and "\<forall>e\<in>set tr. e = Sleep dt"
    and "r = None \<Longrightarrow> add self (owner fk) {} {n} {} = (self', None)"
  using assms
  by (auto simp: forkers_body_def time_sleep_def split: prod.splits option.splits if_splits)

lemma added_after: "add self u c f s = (self', None) \<Longrightarrow> added self' u c f s"
  unfolding added_def by (rule add_stored_after)

lemma added_mono: "added self u c f s \<Longrightarrow> added (fst (add self v c' f' s')) u c f s"
  unfolding added_def
  using add_corrupted_mono [of self v c' f' s']
    add_stored_mono [of contributed_to self "login u" v c' f' s']
    add_stored_mono [of forked self "login u" v c' f' s']
    add_stored_mono [of stared self "login u" v c' f' s']
  by blast


lemma add_loop:
  assumes "for_each (\<lambda>u self. then_do (call_add u c f s self) (time_sleep dt)) us self = (self', tr, r)"
  shows "completed self' kind = completed self kind"
    and "file_path self' = file_path self"
    and "\<forall>e\<in>set tr. e = Sleep dt"
    and "r = None \<Longrightarrow> failure us = None"
    and "r = None \<Longrightarrow> u \<in> set (items us) \<Longrightarrow> added self' u c f s"
proof -
  let ?body = "\<lambda>u self. then_do (call_add u c f s self) (time_sleep dt)"
  show "completed self' kind = completed self kind"
  proof (rule for_each_invariant [where I = "\<lambda>x. completed x kind = completed self kind"
          and body = ?body, OF _ assms])
    fix x s0 s1 tr0 r0
    assume a: "?body x s0 = (s1, tr0, r0)" and b: "completed s0 kind = completed self kind"
    show "completed s1 kind = completed self kind"
      using add_then_sleep(1) [OF a] b by (simp add: add_keeps_completed)
  qed simp
  show "file_path self' = file_path self"
  proof (rule for_each_invariant [where I = "\<lambda>x. file_path x = file_path self"
          and body = ?body, OF _ assms])
    fix x s0 s1 tr0 r0
    assume a: "?body x s0 = (s1, tr0, r0)" and b: "file_path s0 = file_path self"
    show "file_path s1 = file_path self"
      using add_then_sleep(1) [OF a] b by (simp add: add_keeps_ledger)
  qed simp
  show "\<forall>e\<in>set tr. e = Sleep dt"
    by (rule for_each_events [where body = ?body, OF _ assms]) (rule add_then_sleep(2))
  show "failure us = None" if "r = None"
    using assms that for_each_normal by fastforce
  show "added self' u c f s" if "r = None" "u \<in> set (items us)"
  proof (rule for_each_all_items [where body = ?body and Q = "\<lambda>u x. added x u c f s"])
    show "for_each ?body us self = (self', tr, None)"
      using assms that(1) by simp
    show "u \<in> set (items us)" by (rule that(2))
  next
    fix x s0 s1 tr0
    assume "then_do (call_add x c f s s0) (time_sleep dt) = (s1, tr0, None)"
    then have "add s0 x c f s = (s1, None)"
      by (rule add_then_sleep(3)) simp
    then show "added s1 x c f s" by (rule added_after)
  next
    fix x y s0 s1 tr0 r0
    assume a: "then_do (call_add y c f s s0) (time_sleep dt) = (s1, tr0, r0)" and b: "added s0 x c f s"
    show "added s1 x c f s"
      unfolding add_then_sleep(1) [OF a] using b by (rule added_mono)
  qed
qed


lemma forkers_loop:
  assumes "for_each (forkers_body n dt) fs (self, fps) = ((self', fps'), tr, r)"
  shows "completed self' kind = completed self kind"
    and "file_path self' = file_path self"
    and "\<forall>e\<in>set tr. e = Sleep dt"
    and "r = None \<Longrightarrow> failure fs = None"
    and "r = None \<Longrightarrow> fk \<in> set (items fs) \<Longrightarrow> added self' (owner fk) {} {n} {}"
proof -
  let ?body = "forkers_body n dt"
  have step: "fst s1 = fst (add (fst s0) (owner x) {} {n} {})"
    if "?body x s0 = (s1, tr0, r0)" for x s0 s1 tr0 r0
    using that forkers_body_result(1) [of n dt x "fst s0" "snd s0" "fst s1" "snd s1" tr0 r0]
    by simp
  have "completed (fst (self', fps')) kind = completed self kind"
  proof (rule for_each_invariant [where I = "\<lambda>x. completed (fst x) kind = completed self kind"
          and body = ?body, OF _ assms])
    fix x s0 s1 tr0 r0
    assume a: "?body x s0 = (s1, tr0, r0)" and b: "completed (fst s0) kind = completed self kind"
    show "completed (fst s1) kind = completed self kind"
      using step [OF a] b by (simp add: add_keeps_completed)
  qed simp
  then show "completed self' kind = completed self kind" by simp
  have "file_path (fst (self', fps')) = file_path self"
  proof (rule for_each_invariant [where I = "\<lambda>x. file_path (fst x) = file_path self"
          and body = ?body, OF _ assms])
    fix x s0 s1 tr0 r0
    assume a: "?body x s0 = (s1, tr0, r0)" and b: "file_path (fst s0) = file_path self"
    show "file_path (fst s1) = file_path self"
      using step [OF a] b by (simp add: add_keeps_ledger)
  qed simp
  then show "file_path self' = file_path self" by simp
  show "\<forall>e\<in>set tr. e = Sleep dt"
  proof (rule for_each_events [where body = ?body, OF _ assms])
    fix x s0 s1 tr0 r0
    assume a: "?body x s0 = (s1, tr0, r0)"
    show "\<forall>e\<in>set tr0. e = Sleep dt"
      using a forkers_body_result(2) [of n dt x "fst s0" "snd s0" "fst s1" "snd s1" tr0 r0]
      by simp
  qed
  show "failure fs = None" if "r = None"
    using assms that for_each_normal by fastforce
  show "added self' (owner fk) {} {n} {}" if "r = None" "fk \<in> set (items fs)"
  proof -
    have "added (fst (self', fps')) (owner fk) {} {n} {}"
    proof (rule for_each_all_items [where body = ?body
          and Q = "\<lambda>fk x. added (fst x) (owner fk) {} {n} {}"])
      show "for_each ?body fs (self, fps) = ((self', fps'), tr, None)"
        using assms that(1) by simp
      show "fk \<in> set (items fs)" by (rule that(2))
    next
      fix x s0 s1 tr0
      assume a: "forkers_body n dt x s0 = (s1, tr0, None)"
      have "add (fst s0) (owner x) {} {n} {} = (fst s1, None)"
        using a forkers_body_result(3) [of n dt x "fst s0" "snd s0" "fst s1" "snd s1" tr0 None]
        by simp
      then show "added (fst s1) (owner x) {} {n} {}" by (rule added_after)
    next
      fix x y s0 s1 tr0 r0
      assume a: "forkers_body n dt y s0 = (s1, tr0, r0)" and b: "added (fst s0) (owner x) {} {n} {}"
      show "added (fst s1) (owner x) {} {n} {}"
        unfolding step [OF a] using b by (rule added_mono)
    qed
    then show ?thesis by simp
  qed
qed

lemma forkers_loop_names:
  "for_each (forkers_body n dt) fs (self, fps) = ((self', fps'), tr, None) \<Longrightarrow>
   fps' = fps @ map fork_full_name (items fs)"
proof (induction fs arbitrary: self fps tr)
  case (Item x xs)
  from Item.prems have "then_do (forkers_body n dt x (self, fps)) (for_each (forkers_body n dt) xs)
      = ((self', fps'), tr, None)" by simp
  then show ?case
  proof (cases rule: then_doE)
    case (raise e)
    then show ?thesis by simp
  next
    case (normal s1 tr1 tr2)
    obtain b1 l1 where s1: "s1 = (b1, l1)" by (cases s1)
    from normal(1) s1 have "l1 = fps @ [fork_full_name x]"
      by (auto simp: forkers_body_def time_sleep_def split: prod.splits option.splits if_splits)
    with Item.IH [of b1 l1 tr2] normal(2) s1 show ?thesis by simp
  qed
qed simp_all

lemma added_ledger [simp]:
  "added (self\<lparr>crawled_projects_for_contributors := X\<rparr>) u c f s = added self u c f s"
  "added (self\<lparr>crawled_projects_for_stargazers := X\<rparr>) u c f s = added self u c f s"
  "added (self\<lparr>crawled_projects_for_forkers := X\<rparr>) u c f s = added self u c f s"
  by (simp_all add: added_def stored_def)

lemma add_contributors_unfold:
  assumes "full_name repo \<notin> crawled_projects_for_contributors self"
    and "get_contributors repo = Inr cs"
    and "for_each (\<lambda>u self. then_do (call_add u {full_name repo} {} {} self) (time_sleep dt)) cs self
           = (s1, tr1, r1)"
  shows "add_contributors self repo dt =
     (if r1 = None
      then s1\<lparr>crawled_projects_for_contributors :=
                insert (full_name repo) (crawled_projects_for_contributors s1)\<rparr>
      else s1,
      Fetch Contributors (full_name repo) # tr1, r1)"
  using assms by (cases r1) (simp_all add: add_contributors_def)

lemma add_contributors_result:
  assumes "add_contributors self repo dt = (self', tr, r)"
  shows "completed self' kind =
           (if kind = Contributors \<and> r = None then insert (full_name repo) (completed self kind)
            else completed self kind)"
    and "file_path self' = file_path self"
    and "\<forall>e\<in>set tr. e = Fetch Contributors (full_name repo) \<or> e = Sleep dt"
    and "Fetch Contributors (full_name repo) \<in> set tr \<Longrightarrow>
           full_name repo \<notin> crawled_projects_for_contributors self"
    and "r = None \<Longrightarrow> full_name repo \<notin> crawled_projects_for_contributors self \<Longrightarrow>
           \<exists>cs. get_contributors repo = Inr cs \<and> failure cs = None \<and>
             (\<forall>u\<in>set (items cs). added self' u {full_name repo} {} {})"
proof -
  let ?n = "full_name repo"
  let ?body = "\<lambda>u self. then_do (call_add u {?n} {} {} self) (time_sleep dt)"
  consider (skip) "?n \<in> crawled_projects_for_contributors self"
    | (fail) e where "?n \<notin> crawled_projects_for_contributors self" "get_contributors repo = Inl e"
    | (run) cs where "?n \<notin> crawled_projects_for_contributors self" "get_contributors repo = Inr cs"
    by (cases "get_contributors repo") auto
  then have "(completed self' kind =
           (if kind = Contributors \<and> r = None then insert ?n (completed self kind)
            else completed self kind)) \<and>
      file_path self' = file_path self \<and>
      (\<forall>e\<in>set tr. e = Fetch Contributors ?n \<or> e = Sleep dt) \<and>
      (Fetch Contributors ?n \<in> set tr \<longrightarrow> ?n \<notin> crawled_projects_for_contributors self) \<and>
      (r = None \<longrightarrow> ?n \<notin> crawled_projects_for_contributors self \<longrightarrow>
           (\<exists>cs. get_contributors repo = Inr cs \<and> failure cs = None \<and>
             (\<forall>u\<in>set (items cs). added self' u {?n} {} {})))"
  proof cases
    case skip
    with assms have "self' = self" "tr = []" "r = None"
      by (simp_all add: add_contributors_def)
    with skip show ?thesis by (cases kind) auto
  next
    case (fail e)
    with assms have "self' = self" "tr = [Fetch Contributors ?n]" "r = Some e"
      by (simp_all add: add_contributors_def)
    with fail show ?thesis by simp
  next
    case (run cs)
    obtain s1 tr1 r1 where loop: "for_each ?body cs self = (s1, tr1, r1)"
      by (cases "for_each ?body cs self") auto
    note facts = add_loop [OF loop]
    from add_contributors_unfold [OF run loop] assms
    have res: "self' = (if r1 = None
        then s1\<lparr>crawled_projects_for_contributors :=
                  insert ?n (crawled_projects_for_contributors s1)\<rparr>
        else s1)" "tr = Fetch Contributors ?n # tr1" "r = r1"
      by simp_all
    have 1: "completed self' kind =
           (if kind = Contributors \<and> r = None then insert ?n (completed self kind)
            else completed self kind)"
      using facts(1) [of kind] facts(1) [of Contributors] res by (cases kind) auto
    have 2: "file_path self' = file_path self"
      using facts(2) res by auto
    have 3: "\<forall>e\<in>set tr. e = Fetch Contributors ?n \<or> e = Sleep dt"
      using facts(3) res by auto
    have 5: "\<forall>u\<in>set (items cs). added self' u {?n} {} {}" if "r = None"
      using facts(5) res that by auto
    have 4: "failure cs = None" if "r = None"
      using facts(4) res that by auto
    from 1 2 3 4 5 run show ?thesis by simp
  qed
  then show "completed self' kind =
           (if kind = Contributors \<and> r = None then insert (full_name repo) (completed self kind)
            else completed self kind)"
    and "file_path self' = file_path self"
    and "\<forall>e\<in>set tr. e = Fetch Contributors (full_name repo) \<or> e = Sleep dt"
    and "Fetch Contributors (full_name repo) \<in> set tr \<Longrightarrow>
           full_name repo \<notin> crawled_projects_for_contributors self"
    and "r = None \<Longrightarrow> full_name repo \<notin> crawled_projects_for_contributors self \<Longrightarrow>
           \<exists>cs. get_contributors repo = Inr cs \<and> failure cs = None \<and>
             (\<forall>u\<in>set (items cs). added self' u {full_name repo} {} {})"
    by blast+
qed

lemma add_stargazers_unfold:
  assumes "full_name repo \<notin> crawled_projects_for_stargazers self"
    and "get_stargazers repo = Inr cs"
    and "for_each (\<lambda>u self. then_do (call_add u {} {} {full_name repo} self) (time_sleep dt)) cs self
           = (s1, tr1, r1)"
  shows "add_stargazers self repo dt =
     (if r1 = None
      then s1\<lparr>crawled_projects_for_stargazers :=
                insert (full_name repo) (crawled_projects_for_stargazers s1)\<rparr>
      else s1,
      Fetch Stargazers (full_name repo) # tr1, r1)"
  using assms by (cases r1) (simp_all add: add_stargazers_def)

lemma add_stargazers_result:
  assumes "add_stargazers self repo dt = (self', tr, r)"
  shows "completed self' kind =
           (if kind = Stargazers \<and> r = None then insert (full_name repo) (completed self kind)
            else completed self kind)"
    and "file_path self' = file_path self"
    and "\<forall>e\<in>set tr. e = Fetch Stargazers (full_name repo) \<or> e = Sleep dt"
    and "Fetch Stargazers (full_name repo) \<in> set tr \<Longrightarrow>
           full_name repo \<notin> crawled_projects_for_stargazers self"
    and "r = None \<Longrightarrow> full_name repo \<notin> crawled_projects_for_stargazers self \<Longrightarrow>
           \<exists>cs. get_stargazers repo = Inr cs \<and> failure cs = None \<and>
             (\<forall>u\<in>set (items cs). added self' u {} {} {full_name repo})"
proof -
  let ?n = "full_name repo"
  let ?body = "\<lambda>u self. then_do (call_add u {} {} {?n} self) (time_sleep dt)"
  consider (skip) "?n \<in> crawled_projects_for_stargazers self"
    | (fail) e where "?n \<notin> crawled_projects_for_stargazers self" "get_stargazers repo = Inl e"
    | (run) cs where "?n \<notin> crawled_projects_for_stargazers self" "get_stargazers repo = Inr cs"
    by (cases "get_stargazers repo") auto
  then have "(completed self' kind =
           (if kind = Stargazers \<and> r = None then insert ?n (completed self kind)
            else completed self kind)) \<and>
      file_path self' = file_path self \<and>
      (\<forall>e\<in>set tr. e = Fetch Stargazers ?n \<or> e = Sleep dt) \<and>
      (Fetch Stargazers ?n \<in> set tr \<longrightarrow> ?n \<notin> crawled_projects_for_stargazers self) \<and>
      (r = None \<longrightarrow> ?n \<notin> crawled_projects_for_stargazers self \<longrightarrow>
           (\<exists>cs. get_stargazers repo = Inr cs \<and> failure cs = None \<and>
             (\<forall>u\<in>set (items cs). added self' u {} {} {?n})))"
  proof cases
    case skip
    with assms have "self' = self" "tr = []" "r = None"
      by (simp_all add: add_stargazers_def)
    with skip show ?thesis by (cases kind) auto
  next
    case (fail e)
    with assms have "self' = self" "tr = [Fetch Stargazers ?n]" "r = Some e"
      by (simp_all add: add_stargazers_def)
    with fail show ?thesis by simp
  next
    case (run cs)
    obtain s1 tr1 r1 where loop: "for_each ?body cs self = (s1, tr1, r1)"
      by (cases "for_each ?body cs self") auto
    note facts = add_loop [OF loop]
    from add_stargazers_unfold [OF run loop] assms
    have res: "self' = (if r1 = None
        then s1\<lparr>crawled_projects_for_stargazers :=
                  insert ?n (crawled_projects_for_stargazers s1)\<rparr>
        else s1)" "tr = Fetch Stargazers ?n # tr1" "r = r1"
      by simp_all
    have 1: "completed self' kind =
           (if kind = Stargazers \<and> r = None then insert ?n (completed self kind)
            else completed self kind)"
      using facts(1) [of kind] facts(1) [of Stargazers] res by (cases kind) auto
    have 2: "file_path self' = file_path self"
      using facts(2) res by auto
    have 3: "\<forall>e\<in>set tr. e = Fetch Stargazers ?n \<or> e = Sleep dt"
      using facts(3) res by auto
    have 5: "\<forall>u\<in>set (items cs). added self' u {} {} {?n}" if "r = None"
      using facts(5) res that by auto
    have 4: "failure cs = None" if "r = None"
      using facts(4) res that by auto
    from 1 2 3 4 5 run show ?thesis by simp
  qed
  then show "completed self' kind =
           (if kind = Stargazers \<and> r = None then insert (full_name repo) (completed self kind)
            else completed self kind)"
    and "file_path self' = file_path self"
    and "\<forall>e\<in>set tr. e = Fetch Stargazers (full_name repo) \<or> e = Sleep dt"
    and "Fetch Stargazers (full_name repo) \<in> set tr \<Longrightarrow>
           full_name repo \<notin> crawled_projects_for_stargazers self"
    and "r = None \<Longrightarrow> full_name repo \<notin> crawled_projects_for_stargazers self \<Longrightarrow>
           \<exists>cs. get_stargazers repo = Inr cs \<and> failure cs = None \<and>
             (\<forall>u\<in>set (items cs). added self' u {} {} {full_name repo})"
    by blast+
qed


lemma add_forkers_unfold:
  assumes "full_name repo \<notin> crawled_projects_for_forkers self"
    and "get_forks repo = Inr fs"
    and "for_each (forkers_body (full_name repo) dt) fs (self, []) = ((s1, fps1), tr1, r1)"
  shows "add_forkers self repo dt =
     ((if r1 = None
       then s1\<lparr>crawled_projects_for_forkers :=
                 insert (full_name repo) (crawled_projects_for_forkers s1)\<rparr>
       else s1, fps1),
      Fetch Forkers (full_name repo) # tr1, r1)"
  using assms by (cases r1) (simp_all add: add_forkers_def)

lemma add_forkers_result:
  assumes "add_forkers self repo dt = ((self', fps), tr, r)"
  shows "completed self' kind =
           (if kind = Forkers \<and> r = None then insert (full_name repo) (completed self kind)
            else completed self kind)"
    and "file_path self' = file_path self"
    and "\<forall>e\<in>set tr. e = Fetch Forkers (full_name repo) \<or> e = Sleep dt"
    and "Fetch Forkers (full_name repo) \<in> set tr \<Longrightarrow>
           full_name repo \<notin> crawled_projects_for_forkers self"
    and "r = None \<Longrightarrow> full_name repo \<notin> crawled_projects_for_forkers self \<Longrightarrow>
           \<exists>fs. get_forks repo = Inr fs \<and> failure fs = None \<and>
             fps = map fork_full_name (items fs) \<and>
             (\<forall>fk\<in>set (items fs). added self' (owner fk) {} {full_name repo} {})"
proof -
  let ?n = "full_name repo"
  let ?body = "forkers_body ?n dt"
  consider (skip) "?n \<in> crawled_projects_for_forkers self"
    | (fail) e where "?n \<notin> crawled_projects_for_forkers self" "get_forks repo = Inl e"
    | (run) fs where "?n \<notin> crawled_projects_for_forkers self" "get_forks repo = Inr fs"
    by (cases "get_forks repo") auto
  then have "(completed self' kind =
           (if kind = Forkers \<and> r = None then insert ?n (completed self kind)
            else completed self kind)) \<and>
      file_path self' = file_path self \<and>
      (\<forall>e\<in>set tr. e = Fetch Forkers ?n \<or> e = Sleep dt) \<and>
      (Fetch Forkers ?n \<in> set tr \<longrightarrow> ?n \<notin> crawled_projects_for_forkers self) \<and>
      (r = None \<longrightarrow> ?n \<notin> crawled_projects_for_forkers self \<longrightarrow>
           (\<exists>fs. get_forks repo = Inr fs \<and> failure fs = None \<and>
             fps = map fork_full_name (items fs) \<and>
             (\<forall>fk\<in>set (items fs). added self' (owner fk) {} {?n} {})))"
  proof cases
    case skip
    with assms have "self' = self" "tr = []" "r = None"
      by (simp_all add: add_forkers_def)
    with skip show ?thesis by (cases kind) auto
  next
    case (fail e)
    with assms have "self' = self" "tr = [Fetch Forkers ?n]" "r = Some e"
      by (simp_all add: add_forkers_def)
    with fail show ?thesis by simp
  next
    case (run fs)
    obtain s1 fps1 tr1 r1 where loop: "for_each ?body fs (self, []) = ((s1, fps1), tr1, r1)"
      by (cases "for_each ?body fs (self, [])") auto
    note facts = forkers_loop [OF loop]
    from add_forkers_unfold [OF run loop] assms
    have res: "self' = (if r1 = None
        then s1\<lparr>crawled_projects_for_forkers :=
                  insert ?n (crawled_projects_for_forkers s1)\<rparr>
        else s1)" "tr = Fetch Forkers ?n # tr1" "r = r1" "fps = fps1"
      by simp_all
    have 1: "completed self' kind =
           (if kind = Forkers \<and> r = None then insert ?n (completed self kind)
            else completed self kind)"
      using facts(1) [of kind] facts(1) [of Forkers] res by (cases kind) auto
    have 2: "file_path self' = file_path self"
      using facts(2) res by auto
    have 3: "\<forall>e\<in>set tr. e = Fetch Forkers ?n \<or> e = Sleep dt"
      using facts(3) res by auto
    have 5: "\<forall>fk\<in>set (items fs). added self' (owner fk) {} {?n} {}" if "r = None"
      using facts(5) res that by auto
    have 4: "failure fs = None" if "r = None"
      using facts(4) res that by auto
    have 6: "fps = map fork_full_name (items fs)" if "r = None"
      using forkers_loop_names [of ?n dt fs self "[]" s1 fps1 tr1] loop res that by simp
    from 1 2 3 4 5 6 run show ?thesis by simp
  qed
  then show "completed self' kind =
           (if kind = Forkers \<and> r = None then insert (full_name repo) (completed self kind)
            else completed self kind)"
    and "file_path self' = file_path self"
    and "\<forall>e\<in>set tr. e = Fetch Forkers (full_name repo) \<or> e = Sleep dt"
    and "Fetch Forkers (full_name repo) \<in> set tr \<Longrightarrow>
           full_name repo \<notin> crawled_projects_for_forkers self"
    and "r = None \<Longrightarrow> full_name repo \<notin> crawled_projects_for_forkers self \<Longrightarrow>
           \<exists>fs. get_forks repo = Inr fs \<and> failure fs = None \<and>
             fps = map fork_full_name (items fs) \<and>
             (\<forall>fk\<in>set (items fs). added self' (owner fk) {} {full_name repo} {})"
    by blast+
qed



section \<open>Properties of find_developers\<close>

lemma set_set_add [simp]: "set (set_add x xs) = insert x (set xs)"
  by (auto simp: set_add_def)

lemma set_set_update [simp]: "set (set_update xs ys) = set xs \<union> set ys"
  unfolding set_update_def by (induction ys arbitrary: xs) auto


lemma stage_ok_then_do:
  assumes "stage_ok opts dt st r" and "\<And>s. stage_ok opts dt s (f s)"
  shows "stage_ok opts dt st (then_do r f)"
proof -
  obtain s1 tr1 x1 where r: "r = (s1, tr1, x1)" by (cases r)
  show ?thesis
  proof (cases x1)
    case (Some e)
    with r assms(1) show ?thesis by simp
  next
    case None
    obtain s2 tr2 x2 where f: "f s1 = (s2, tr2, x2)" by (cases "f s1")
    from assms(2) [of s1] f have two: "stage_ok opts dt s1 (s2, tr2, x2)" by simp
    from assms(1) r have one: "stage_ok opts dt st (s1, tr1, x1)" by simp
    have "stage_ok opts dt st (s2, tr1 @ tr2, x2)"
      using one two unfolding stage_ok_def by (simp; blast)
    with r None f show ?thesis by simp
  qed
qed

lemma then_do_save:
  "then_do (b1, tr1, r1) save = (b1, tr1 @ (if r1 = None then fst (snd (save b1)) else []), r1)"
  by (cases r1) (auto simp: save_def split: option.splits)

lemma save_events: "e \<in> set (fst (snd (save b))) \<Longrightarrow> \<exists>p. e = Save p b"
  by (auto simp: save_def split: option.splits if_splits)

lemma crawl_contributors_ok: "stage_ok opts dt st (crawl_contributors opts repo dt st)"
proof (cases "ignore_contributors opts")
  case True
  then show ?thesis by (simp add: crawl_contributors_def stage_ok_def)
next
  case False
  obtain b1 tr1 r1 where a: "add_contributors (base st) repo dt = (b1, tr1, r1)"
    by (cases "add_contributors (base st) repo dt") auto
  note facts = add_contributors_result [OF a]
  have res: "crawl_contributors opts repo dt st =
      (st\<lparr>base := b1\<rparr>, tr1 @ (if r1 = None then fst (snd (save b1)) else []), r1)"
    using False by (simp add: crawl_contributors_def on_base_def a then_do_save)
  have 1: "completed (base st) k \<subseteq> completed b1 k" for k
    using facts(1) [of k] by auto
  have 2: "n \<notin> completed (base st) k"
    if "Fetch k n \<in> set (tr1 @ (if r1 = None then fst (snd (save b1)) else []))" for k n
  proof -
    from that have "Fetch k n \<in> set tr1"
      by (auto dest: save_events split: if_splits)
    with facts(3) have "k = Contributors" "n = full_name repo" by auto
    with facts(4) \<open>Fetch k n \<in> set tr1\<close> show ?thesis by simp
  qed
  have 3: "secs = dt"
    if "Sleep secs \<in> set (tr1 @ (if r1 = None then fst (snd (save b1)) else []))" for secs
  proof -
    from that have "Sleep secs \<in> set tr1"
      by (auto dest: save_events split: if_splits)
    with facts(3) show ?thesis by auto
  qed
  show ?thesis
    unfolding res stage_ok_def using 1 2 3 by auto
qed

lemma crawl_stargazers_ok: "stage_ok opts dt st (crawl_stargazers opts repo dt st)"
proof (cases "ignore_stargazers opts")
  case True
  then show ?thesis by (simp add: crawl_stargazers_def stage_ok_def)
next
  case False
  obtain b1 tr1 r1 where a: "add_stargazers (base st) repo dt = (b1, tr1, r1)"
    by (cases "add_stargazers (base st) repo dt") auto
  note facts = add_stargazers_result [OF a]
  have res: "crawl_stargazers opts repo dt st =
      (st\<lparr>base := b1\<rparr>, tr1 @ (if r1 = None then fst (snd (save b1)) else []), r1)"
    using False by (simp add: crawl_stargazers_def on_base_def a then_do_save)
  have 1: "completed (base st) k \<subseteq> completed b1 k" for k
    using facts(1) [of k] by auto
  have 2: "n \<notin> completed (base st) k"
    if "Fetch k n \<in> set (tr1 @ (if r1 = None then fst (snd (save b1)) else []))" for k n
  proof -
    from that have "Fetch k n \<in> set tr1"
      by (auto dest: save_events split: if_splits)
    with facts(3) have "k = Stargazers" "n = full_name repo" by auto
    with facts(4) \<open>Fetch k n \<in> set tr1\<close> show ?thesis by simp
  qed
  have 3: "secs = dt"
    if "Sleep secs \<in> set (tr1 @ (if r1 = None then fst (snd (save b1)) else []))" for secs
  proof -
    from that have "Sleep secs \<in> set tr1"
      by (auto dest: save_events split: if_splits)
    with facts(3) show ?thesis by auto
  qed
  show ?thesis
    unfolding res stage_ok_def using 1 2 3 by auto
qed


lemma crawl_forkers_ok: "stage_ok opts dt st (crawl_forkers opts repo dt st)"
proof (cases "ignore_forkers opts")
  case True
  then show ?thesis by (simp add: crawl_forkers_def stage_ok_def)
next
  case False
  obtain b1 fps tr1 r1 where a: "add_forkers (base st) repo dt = ((b1, fps), tr1, r1)"
    by (cases "add_forkers (base st) repo dt") auto
  note facts = add_forkers_result [OF a]
  have res: "crawl_forkers opts repo dt st =
      ((if r1 = None then st\<lparr>base := b1, forked_projects := Some fps\<rparr> else st\<lparr>base := b1\<rparr>),
       tr1 @ (if r1 = None then fst (snd (save b1)) else []), r1)"
    using False
    by (cases r1) (auto simp: crawl_forkers_def on_base_def a save_def split: option.splits)
  have 1: "completed (base st) k \<subseteq> completed b1 k" for k
    using facts(1) [of k] by auto
  have 2: "n \<notin> completed (base st) k"
    if "Fetch k n \<in> set (tr1 @ (if r1 = None then fst (snd (save b1)) else []))" for k n
  proof -
    from that have "Fetch k n \<in> set tr1"
      by (auto dest: save_events split: if_splits)
    with facts(3) have "k = Forkers" "n = full_name repo" by auto
    with facts(4) \<open>Fetch k n \<in> set tr1\<close> show ?thesis by simp
  qed
  have 3: "secs = dt"
    if "Sleep secs \<in> set (tr1 @ (if r1 = None then fst (snd (save b1)) else []))" for secs
  proof -
    from that have "Sleep secs \<in> set tr1"
      by (auto dest: save_events split: if_splits)
    with facts(3) show ?thesis by auto
  qed
  show ?thesis
    unfolding res stage_ok_def using 1 2 3 False by auto
qed

lemma crawl_recursive_ok: "stage_ok opts dt st (crawl_recursive opts st)"
  by (auto simp: crawl_recursive_def stage_ok_def split: option.splits)

lemma crawl_stages_ok:
  assumes "stage_ok opts dt st r"
  shows "stage_ok opts dt st (crawl_stages opts repo dt r)"
  unfolding crawl_stages_def
  by (intro stage_ok_then_do assms crawl_contributors_ok crawl_stargazers_ok crawl_forkers_ok)

text \<open>The \<open>try\<close> block, seen from the state in which the project has been popped.\<close>

lemma find_developers_try_ok:
  assumes "set_pop (pop_choice G n (projects st)) (projects st) = (project, rest)"
    and "find_developers_try G opts dt n st = (st', tr, r)"
  shows "stage_ok opts dt (st\<lparr>projects := rest\<rparr>) (st', tr, r)"
    and "GetRepo project \<in> set tr"
proof -
  let ?st0 = "st\<lparr>projects := rest\<rparr>"
  have start: "stage_ok opts dt ?st0 (?st0, [GetRepo project], x)" for x
    by (simp add: stage_ok_def)
  show "stage_ok opts dt ?st0 (st', tr, r)"
  proof (cases "get_repo G n project")
    case (Inl e)
    with assms have "(st', tr, r) = (?st0, [GetRepo project], Some e)"
      by (simp add: find_developers_try_def)
    with start show ?thesis by simp
  next
    case (Inr repo)
    with assms have "(st', tr, r) =
        then_do (crawl_stages opts repo dt (?st0, [GetRepo project], None)) (crawl_recursive opts)"
      by (simp add: find_developers_try_def)
    then show ?thesis
      by (simp add: stage_ok_then_do crawl_stages_ok start crawl_recursive_ok)
  qed
  show "GetRepo project \<in> set tr"
  proof (cases "get_repo G n project")
    case (Inl e)
    with assms show ?thesis by (auto simp: find_developers_try_def)
  next
    case (Inr repo)
    have pre: "GetRepo project \<in> set (fst (snd (then_do x f)))"
      if "GetRepo project \<in> set (fst (snd x))" for x :: "crawl result" and f
      using that by (auto simp: then_do_def split: prod.splits option.splits)
    have "GetRepo project \<in> set (fst (snd (then_do
        (crawl_stages opts repo dt (?st0, [GetRepo project], None)) (crawl_recursive opts))))"
      unfolding crawl_stages_def by (intro pre) simp
    with Inr assms show ?thesis by (simp add: find_developers_try_def)
  qed
qed

lemma find_developers_iteration_unfold:
  assumes "find_developers_try G opts dt n st = (s1, tr1, r1)"
  shows "find_developers_iteration G opts dt n st =
     (if r1 = Some RateLimitExceededException then
        (if real_of_int (rate_limiting_resettime G n - clock G n + 10) < 0
         then (s1\<lparr>projects := set_add (fst (set_pop (pop_choice G n (projects st)) (projects st)))
                               (projects s1)\<rparr>, tr1, Some ValueError)
         else (s1\<lparr>projects := set_add (fst (set_pop (pop_choice G n (projects st)) (projects st)))
                               (projects s1)\<rparr>,
               tr1 @ [Sleep (of_int (rate_limiting_resettime G n - clock G n + 10))], None))
      else (s1, tr1, r1))"
  using assms
  by (cases r1) (simp_all add: find_developers_iteration_def Let_def time_sleep_def)

lemma find_developers_iteration_ok:
  assumes pop: "set_pop (pop_choice G n (projects st)) (projects st) = (project, rest)"
    and it: "find_developers_iteration G opts dt n st = (st', tr, r)"
  shows "completed (base st) k \<subseteq> completed (base st') k"
    and "Fetch k m \<in> set tr \<Longrightarrow> m \<notin> completed (base st) k"
    and "Sleep secs \<in> set tr \<Longrightarrow>
           secs = dt \<or> secs = of_int (rate_limiting_resettime G n - clock G n + 10)"
    and "set rest \<subseteq> set (projects st')"
    and "GetRepo project \<in> set tr"
    and "ignore_forkers opts \<Longrightarrow> forked_projects st' = forked_projects st"
proof -
  obtain s1 tr1 r1 where t: "find_developers_try G opts dt n st = (s1, tr1, r1)"
    by (cases "find_developers_try G opts dt n st") auto
  note ok = find_developers_try_ok [OF pop t]
  from ok(1) have 1: "completed (base st) k \<subseteq> completed (base s1) k"
    and 2: "Fetch k m \<in> set tr1 \<Longrightarrow> m \<notin> completed (base st) k"
    and 3: "Sleep secs \<in> set tr1 \<Longrightarrow> secs = dt"
    and 4: "set rest \<subseteq> set (projects s1)"
    and 5: "ignore_forkers opts \<Longrightarrow> forked_projects s1 = forked_projects st"
    by (auto simp: stage_ok_def)
  note u = find_developers_iteration_unfold [OF t, unfolded it]
  from u have b: "base st' = base s1"
    and p: "set (projects s1) \<subseteq> set (projects st')"
    and f: "forked_projects st' = forked_projects s1"
    and tr: "set tr \<subseteq> set tr1 \<union> {Sleep (of_int (rate_limiting_resettime G n - clock G n + 10))}"
    and tr1: "set tr1 \<subseteq> set tr"
    by (auto split: if_splits)
  show "completed (base st) k \<subseteq> completed (base st') k" using 1 b by simp
  show "m \<notin> completed (base st) k" if "Fetch k m \<in> set tr" using that tr 2 by auto
  show "secs = dt \<or> secs = of_int (rate_limiting_resettime G n - clock G n + 10)"
    if "Sleep secs \<in> set tr" using that tr 3 by auto
  show "set rest \<subseteq> set (projects st')" using 4 p by blast
  show "GetRepo project \<in> set tr" using ok(2) tr1 by blast
  show "forked_projects st' = forked_projects st" if "ignore_forkers opts" using that 5 f by simp
qed

lemma find_developers_loop_Suc:
  assumes "projects st \<noteq> []"
    and "find_developers_iteration G opts dt n st = (s1, tr1, r1)"
  shows "find_developers_loop G opts dt (Suc fuel) n st =
     (case r1 of
        Some e \<Rightarrow> (s1, tr1, Raised e)
      | None \<Rightarrow> (fst (find_developers_loop G opts dt fuel (Suc n) s1),
                 tr1 @ fst (snd (find_developers_loop G opts dt fuel (Suc n) s1)),
                 snd (snd (find_developers_loop G opts dt fuel (Suc n) s1))))"
  using assms by (cases r1) (simp_all split: prod.splits)

lemma find_developers_loop_ok:
  "find_developers_loop G opts dt fuel n st = (st', tr, out) \<Longrightarrow>
     (\<forall>k. completed (base st) k \<subseteq> completed (base st') k) \<and>
     (\<forall>k m. Fetch k m \<in> set tr \<longrightarrow> m \<notin> completed (base st) k) \<and>
     (\<forall>secs. Sleep secs \<in> set tr \<longrightarrow>
        secs = dt \<or> (\<exists>i. secs = of_int (rate_limiting_resettime G i - clock G i + 10)))"
proof (induction fuel arbitrary: n st st' tr out)
  case 0
  then show ?case by (auto split: if_splits)
next
  case (Suc fuel)
  show ?case
  proof (cases "projects st = []")
    case True
    with Suc.prems show ?thesis by simp
  next
    case False
    obtain project rest where pop: "set_pop (pop_choice G n (projects st)) (projects st) = (project, rest)"
      by (cases "set_pop (pop_choice G n (projects st)) (projects st)") auto
    obtain s1 tr1 r1 where it: "find_developers_iteration G opts dt n st = (s1, tr1, r1)"
      by (cases "find_developers_iteration G opts dt n st") auto
    note ok = find_developers_iteration_ok [OF pop it]
    note u = find_developers_loop_Suc [OF False it, of fuel, unfolded Suc.prems]
    show ?thesis
    proof (cases r1)
      case (Some e)
      with u have "st' = s1" "tr = tr1" by simp_all
      with ok(1,2,3) show ?thesis by blast
    next
      case None
      obtain s2 tr2 o2 where l: "find_developers_loop G opts dt fuel (Suc n) s1 = (s2, tr2, o2)"
        by (cases "find_developers_loop G opts dt fuel (Suc n) s1") auto
      from u None l have eq: "st' = s2" "tr = tr1 @ tr2" by simp_all
      note ih = Suc.IH [OF l]
      have a: "completed (base st) k \<subseteq> completed (base st') k" for k
        using ok(1) [of k] ih eq by blast
      have b: "m \<notin> completed (base st) k" if "Fetch k m \<in> set tr" for k m
      proof (cases "Fetch k m \<in> set tr1")
        case True
        then show ?thesis by (rule ok(2))
      next
        case False
        with that eq have "Fetch k m \<in> set tr2" by simp
        with ih have "m \<notin> completed (base s1) k" by blast
        with ok(1) [of k] show ?thesis by blast
      qed
      have c: "secs = dt \<or> (\<exists>i. secs = of_int (rate_limiting_resettime G i - clock G i + 10))"
        if "Sleep secs \<in> set tr" for secs
      proof (cases "Sleep secs \<in> set tr1")
        case True
        with ok(3) show ?thesis by blast
      next
        case False
        with that eq have "Sleep secs \<in> set tr2" by simp
        with ih show ?thesis by blast
      qed
      from a b c show ?thesis by blast
    qed
  qed
qed



lemma crawl_stages_go_recursive:
  "crawl_stages (opts\<lparr>go_recursive := b\<rparr>) repo dt r = crawl_stages opts repo dt r"
proof -
  have "crawl_contributors (opts\<lparr>go_recursive := b\<rparr>) repo dt = crawl_contributors opts repo dt"
    "crawl_stargazers (opts\<lparr>go_recursive := b\<rparr>) repo dt = crawl_stargazers opts repo dt"
    "crawl_forkers (opts\<lparr>go_recursive := b\<rparr>) repo dt = crawl_forkers opts repo dt"
    by (rule ext, simp add: crawl_contributors_def crawl_stargazers_def crawl_forkers_def)+
  then show ?thesis by (simp add: crawl_stages_def)
qed

lemma then_do_return: "then_do r (\<lambda>s. (s, [], None)) = r"
  by (auto simp: then_do_def split: prod.splits option.splits)

text \<open>
  With \<open>go_recursive\<close> and \<open>ignore_forkers\<close> the name \<open>forked_projects\<close> is never
  bound, and the \<open>try\<close> block cannot end normally: it raises what a stage raises, or
  \<open>NameError\<close> at the update of the frontier.
\<close>

lemma find_developers_try_unbound:
  assumes "go_recursive opts" and "ignore_forkers opts" and "forked_projects st = None"
    and "find_developers_try G opts dt n st = (s1, tr1, r1)"
  shows "r1 \<noteq> None"
    and "find_developers_try G (opts\<lparr>go_recursive := False\<rparr>) dt n st = (s0, tr0, None) \<Longrightarrow>
           (s1, tr1, r1) = (s0, tr0, Some NameError)"
proof -
  obtain project rest where pop: "set_pop (pop_choice G n (projects st)) (projects st) = (project, rest)"
    by (cases "set_pop (pop_choice G n (projects st)) (projects st)") auto
  let ?st0 = "st\<lparr>projects := rest\<rparr>"
  let ?start = "(?st0, [GetRepo project], None :: exc option)"
  have both: "r1 \<noteq> None \<and>
     (find_developers_try G (opts\<lparr>go_recursive := False\<rparr>) dt n st = (s0, tr0, None) \<longrightarrow>
           (s1, tr1, r1) = (s0, tr0, Some NameError))"
  proof (cases "get_repo G n project")
    case (Inl e)
    with pop assms(4) show ?thesis by (auto simp: find_developers_try_def)
  next
    case (Inr repo)
    obtain s2 tr2 r2 where x: "crawl_stages opts repo dt ?start = (s2, tr2, r2)"
      by (cases "crawl_stages opts repo dt ?start") auto
    have "stage_ok opts dt ?st0 (crawl_stages opts repo dt ?start)"
      by (rule crawl_stages_ok) (simp add: stage_ok_def)
    with x assms(2,3) have unbound: "forked_projects s2 = None"
      by (simp add: stage_ok_def)
    have with_rec: "find_developers_try G opts dt n st =
        then_do (s2, tr2, r2) (crawl_recursive opts)"
      using pop Inr x by (simp add: find_developers_try_def)
    have without: "find_developers_try G (opts\<lparr>go_recursive := False\<rparr>) dt n st = (s2, tr2, r2)"
    proof -
      have "crawl_recursive (opts\<lparr>go_recursive := False\<rparr>) = (\<lambda>s. (s, [], None))"
        by (rule ext) (simp add: crawl_recursive_def)
      then show ?thesis
        using pop Inr x
        by (simp add: find_developers_try_def crawl_stages_go_recursive then_do_return)
    qed
    show ?thesis
    proof (cases r2)
      case (Some e)
      with with_rec without assms(4) show ?thesis by auto
    next
      case None
      with with_rec unbound assms(1) have "find_developers_try G opts dt n st = (s2, tr2, Some NameError)"
        by (simp add: crawl_recursive_def)
      with without assms(4) show ?thesis by auto
    qed
  qed
  from both show "r1 \<noteq> None" by blast
  from both show "find_developers_try G (opts\<lparr>go_recursive := False\<rparr>) dt n st = (s0, tr0, None) \<Longrightarrow>
           (s1, tr1, r1) = (s0, tr0, Some NameError)" by blast
qed

lemma find_developers_loop_unbound:
  assumes "go_recursive opts" and "ignore_forkers opts"
  shows "forked_projects st = None \<Longrightarrow> projects st \<noteq> [] \<Longrightarrow>
         snd (snd (find_developers_loop G opts dt fuel n st)) \<noteq> Completed"
proof (induction fuel arbitrary: n st)
  case 0
  then show ?case by simp
next
  case (Suc fuel)
  obtain project rest where pop: "set_pop (pop_choice G n (projects st)) (projects st) = (project, rest)"
    by (cases "set_pop (pop_choice G n (projects st)) (projects st)") auto
  obtain s1 tr1 r1 where t: "find_developers_try G opts dt n st = (s1, tr1, r1)"
    by (cases "find_developers_try G opts dt n st") auto
  obtain s2 tr2 r2 where it: "find_developers_iteration G opts dt n st = (s2, tr2, r2)"
    by (cases "find_developers_iteration G opts dt n st") auto
  note u = find_developers_iteration_unfold [OF t, unfolded it]
  note l = find_developers_loop_Suc [OF Suc.prems(2) it, of fuel]
  show ?case
  proof (cases r2)
    case (Some e)
    with l show ?thesis by simp
  next
    case None
    from find_developers_try_unbound(1) [OF assms Suc.prems(1) t] have "r1 \<noteq> None" .
    with u None have "projects s2 = set_add project (projects s1)"
      using pop by (auto split: if_splits)
    then have "set (projects s2) \<noteq> {}" by simp
    then have ne: "projects s2 \<noteq> []" by auto
    from find_developers_iteration_ok(6) [OF pop it assms(2)] Suc.prems(1)
    have "forked_projects s2 = None" by simp
    from Suc.IH [OF this ne] l None show ?thesis by simp
  qed
qed

text \<open>
  C3.  When the full name of the repository is in the completion set of a kind, the
  crawl operation of that kind returns at once: the trace is empty (no listing request,
  no sleep), the base is unchanged, and \<open>add_forkers\<close> returns the empty list.  Hence
  a run of \<open>find_developers\<close> on any base, for any platform, any arguments and any
  number of iterations, never requests the listing of a kind for a repository that the
  base had in the completion set of that kind when the run began.  (The repository
  object itself is still looked up with \<open>get_repo\<close>.)
\<close>

theorem completed_kind_is_not_fetched_again:
  "(full_name repo \<in> crawled_projects_for_contributors self \<longrightarrow>
      add_contributors self repo dt = (self, [], None)) \<and>
   (full_name repo \<in> crawled_projects_for_stargazers self \<longrightarrow>
      add_stargazers self repo dt = (self, [], None)) \<and>
   (full_name repo \<in> crawled_projects_for_forkers self \<longrightarrow>
      add_forkers self repo dt = ((self, []), [], None)) \<and>
   (\<forall>kind r. r \<in> completed self kind \<longrightarrow>
      Fetch kind r \<notin> set (fst (snd (find_developers Github fuel self gh_token projects'
        go_recursive' ignore_contributors' ignore_forkers' ignore_stargazers' ignore_rate_limiting))))"
proof -
  have ops: "full_name repo \<in> crawled_projects_for_contributors self \<longrightarrow>
      add_contributors self repo dt = (self, [], None)"
    "full_name repo \<in> crawled_projects_for_stargazers self \<longrightarrow>
      add_stargazers self repo dt = (self, [], None)"
    "full_name repo \<in> crawled_projects_for_forkers self \<longrightarrow>
      add_forkers self repo dt = ((self, []), [], None)"
    by (simp_all add: add_contributors_def add_stargazers_def add_forkers_def)
  let ?run = "find_developers Github fuel self gh_token projects'
        go_recursive' ignore_contributors' ignore_forkers' ignore_stargazers' ignore_rate_limiting"
  obtain st' tr out where run: "?run = (st', tr, out)"
    by (cases ?run) auto
  have "Fetch kind r \<notin> set tr" if "r \<in> completed self kind" for kind r
    using find_developers_loop_ok [OF run [unfolded find_developers_def Let_def]] that
    by auto
  with ops run show ?thesis by simp
qed

theorem completed_kind_is_not_fetched_again_witness:
  "full_name small_repo \<in> crawled_projects_for_contributors crawled_base \<and>
   add_contributors crawled_base small_repo 0 = (crawled_base, [], None) \<and>
   ''a/b'' \<in> completed crawled_base Contributors \<and>
   Fetch Contributors ''a/b'' \<notin> set (fst (snd (find_developers (\<lambda>token. example_platform 0) 3
      crawled_base ''token'' [''a/b''] False False False False True)))"
proof -
  have h1: "full_name small_repo \<in> crawled_projects_for_contributors crawled_base"
    by (simp add: small_repo_def crawled_base_def)
  have h2: "''a/b'' \<in> completed crawled_base Contributors"
    by (simp add: crawled_base_def)
  from completed_kind_is_not_fetched_again [of small_repo crawled_base 0
      "\<lambda>token. example_platform 0" 3 "''token''" "[''a/b'']" False False False False True] h1 h2
  show ?thesis by blast
qed





text \<open>
  C10.  \<open>find_developers\<close> is called with \<open>go_recursive\<close> and \<open>ignore_forkers\<close> and a
  list of projects that is not empty.  Then no run completes the crawl.  If the first
  iteration gets as far as the update of the frontier, that is if the same \<open>try\<close>
  block without the recursive step ends normally, the call raises \<open>NameError\<close> in
  that iteration.
\<close>

theorem unbound_forked_projects_raises:
  assumes "projects' \<noteq> []"
  shows "snd (snd (find_developers Github fuel self gh_token projects' True ignore_contributors' True
            ignore_stargazers' ignore_rate_limiting)) \<noteq> Completed \<and>
         (0 < fuel \<and>
          snd (snd (find_developers_try (Github gh_token)
             \<lparr>go_recursive = False, ignore_contributors = ignore_contributors',
              ignore_forkers = True, ignore_stargazers = ignore_stargazers'\<rparr>
             (pacing ignore_rate_limiting (Github gh_token)) 0
             \<lparr>base = self, projects = remdups projects', forked_projects = None\<rparr>)) = None \<longrightarrow>
          snd (snd (find_developers Github fuel self gh_token projects' True ignore_contributors' True
            ignore_stargazers' ignore_rate_limiting)) = Raised NameError)"
proof -
  let ?G = "Github gh_token"
  let ?dt = "pacing ignore_rate_limiting ?G"
  let ?opts = "\<lparr>go_recursive = True, ignore_contributors = ignore_contributors',
              ignore_forkers = True, ignore_stargazers = ignore_stargazers'\<rparr>"
  let ?st = "\<lparr>base = self, projects = remdups projects', forked_projects = None\<rparr>"
  have run: "find_developers Github fuel self gh_token projects' True ignore_contributors' True
            ignore_stargazers' ignore_rate_limiting = find_developers_loop ?G ?opts ?dt fuel 0 ?st"
    by (simp add: find_developers_def Let_def)
  from assms have ne: "projects ?st \<noteq> []" by simp
  have never: "snd (snd (find_developers_loop ?G ?opts ?dt fuel 0 ?st)) \<noteq> Completed"
    by (rule find_developers_loop_unbound) (use ne in simp_all)
  have first: "snd (snd (find_developers_loop ?G ?opts ?dt fuel 0 ?st)) = Raised NameError"
    if "0 < fuel"
      and ok: "snd (snd (find_developers_try ?G (?opts\<lparr>go_recursive := False\<rparr>) ?dt 0 ?st)) = None"
  proof -
    from that(1) obtain k where k: "fuel = Suc k" by (cases fuel) auto
    obtain s0 tr0 where t0: "find_developers_try ?G (?opts\<lparr>go_recursive := False\<rparr>) ?dt 0 ?st
        = (s0, tr0, None)"
      using ok by (cases "find_developers_try ?G (?opts\<lparr>go_recursive := False\<rparr>) ?dt 0 ?st") auto
    obtain s1 tr1 r1 where t: "find_developers_try ?G ?opts ?dt 0 ?st = (s1, tr1, r1)"
      by (cases "find_developers_try ?G ?opts ?dt 0 ?st") auto
    from find_developers_try_unbound(2) [OF _ _ _ t t0]
    have "(s1, tr1, r1) = (s0, tr0, Some NameError)" by simp
    with t have t': "find_developers_try ?G ?opts ?dt 0 ?st = (s0, tr0, Some NameError)" by simp
    have "find_developers_iteration ?G ?opts ?dt 0 ?st = (s0, tr0, Some NameError)"
      unfolding find_developers_iteration_unfold [OF t'] by simp
    from find_developers_loop_Suc [OF ne this, of k] k show ?thesis by simp
  qed
  from never first show ?thesis
    unfolding run by simp
qed

theorem unbound_forked_projects_raises_witness:
  "snd (snd (find_developers (\<lambda>token. example_platform 0) 1 (init None) ''token'' [''a/b'']
      True False True False True)) = Raised NameError"
proof -
  have h1: "[''a/b''] \<noteq> []" by simp
  have h2: "snd (snd (find_developers_try (example_platform 0)
       \<lparr>go_recursive = False, ignore_contributors = False, ignore_forkers = True,
        ignore_stargazers = False\<rparr>
       (pacing True (example_platform 0)) 0
       \<lparr>base = init None, projects = remdups [''a/b''], forked_projects = None\<rparr>)) = None"
    by code_simp
  from unbound_forked_projects_raises [OF h1, of "\<lambda>token. example_platform 0" 1 "init None"
      "''token''" False False True] h2
  show ?thesis by simp
qed

section \<open>Properties of rank_developers\<close>




section \<open>Properties of parse_location\<close>

lemma set_unique [simp]: "set (unique xs) = set xs"
  by (simp add: unique_def)

lemma unique_Nil_iff [simp]: "unique xs = [] \<longleftrightarrow> xs = []"
  by (metis set_unique set_empty)

text \<open>
  Where every matched row has the same \<open>city\<close> and \<open>city_ascii\<close>, the fallback does
  find the matched rows again, and the countries returned are theirs.
\<close>

lemma parse_location_fallback_same_names:
  assumes same: "\<forall>r\<in>set df. city r \<in> set (map (\<lambda>loc. lower (strip loc)) (split_comma l)) \<longrightarrow>
                  city_ascii r = city r"
    and no_country: "filter (\<lambda>r. country r \<in> set (map (\<lambda>loc. lower (strip loc)) (split_comma l))) df = []"
    and some_city: "filter (\<lambda>r. city r \<in> set (map (\<lambda>loc. lower (strip loc)) (split_comma l))) df \<noteq> []"
  shows "parse_location df (Some l) =
     (unique (map country (filter (\<lambda>r. city r \<in> set (map (\<lambda>loc. lower (strip loc)) (split_comma l))) df)),
      unique (map city (filter (\<lambda>r. city r \<in> set (map (\<lambda>loc. lower (strip loc)) (split_comma l))) df)))"
proof -
  let ?locs = "map (\<lambda>loc. lower (strip loc)) (split_comma l)"
  let ?matched = "filter (\<lambda>r. city r \<in> set ?locs) df"
  have ascii: "map city_ascii ?matched = map city ?matched"
    using same by (auto intro: map_cong)
  have again: "filter (\<lambda>r. city r \<in> set (map city ?matched)) df = ?matched"
    by (rule filter_cong) auto
  from some_city have ne: "unique (map city ?matched) \<noteq> []" by simp
  show ?thesis
    using ne by (simp add: parse_location_def Let_def no_country ascii again del: set_map set_filter)
qed

text \<open>
  C9, at an input where the code departs from it.  The table holds the row of the city
  written with a tilde, whose \<open>city_ascii\<close> is \<open>sao paulo\<close> and whose country is
  \<open>brazil\<close>.  The input is the name of that city: it matches the city of the row and
  no country.  The fallback compares the column \<open>city\<close> with the matched
  \<open>city_ascii\<close> values, finds no row, and the country list stays empty.
\<close>

theorem parse_location_city_without_country:
  "map country (filter (\<lambda>r. city r = lower sao_paulo) (GeoParser_init example_csv)) = [''brazil''] \<and>
   map country (filter (\<lambda>r. country r = lower sao_paulo) (GeoParser_init example_csv)) = [] \<and>
   parse_location (GeoParser_init example_csv) (Some sao_paulo) = ([], [''sao paulo''])"
  by code_simp

end
